theory Spec2Isabelle
  imports Main
begin

section \<open>Slot storage\<close>

text \<open>
  A slot is a \<open>pair_atomic_type\<close>: an atomic key (\<open>first\<close>) and an atomic mapped value
  (\<open>second\<close>). The table owns an array of slots; the device views are handles that carry the
  base pointer \<open>slots_\<close>, the capacity and the two sentinels. The memory reached through
  \<open>slots_\<close> is a store indexed from the base pointer, so \<open>m i\<close> is \<open>slots_[i]\<close>;
  \<open>capacity\<close> says how many of these cells belong to the table. A value of type \<open>'k\<close> or
  \<open>'v\<close> stands for its object representation, so equality of values is equality of bit
  patterns. Where the source compares keys with the \<open>==\<close> of the key type instead, that
  operator is a function on these representations, given as a parameter.
\<close>

type_synonym ('k, 'v) memory = "nat \<Rightarrow> 'k \<times> 'v"

record ('k, 'v) view =
  capacity :: nat
  empty_key_sentinel :: 'k
  empty_value_sentinel :: 'v

text \<open>The result of an insert attempt, as declared by \<open>enum class insert_result\<close>.\<close>

datatype insert_result = CONTINUE | SUCCESS | DUPLICATE

text \<open>
  Modelled from the spec: \<open>detail::bitwise_compare\<close> is declared in
  \<open>cuco/detail/bitwise_compare.cuh\<close>, which is not among the sources. The spec (4.3) calls it
  the comparison of bit patterns.
\<close>

definition bitwise_compare :: "'a \<Rightarrow> 'a \<Rightarrow> bool" where
  "bitwise_compare lhs rhs = (lhs = rhs)"

text \<open>
  Modelled from the spec: \<open>end()\<close> is declared in \<open>static_multimap.cuh\<close>, which is not among
  the sources. It is the position that no slot of the table has: one past the last slot.
\<close>

definition end_slot :: "('k, 'v) view \<Rightarrow> nat" where
  "end_slot t = capacity t"

subsection \<open>Atomic operations on one slot\<close>

text \<open>
  \<open>compare_exchange_strong(expected, desired)\<close> on the key field and on the value field of
  slot \<open>s\<close>: the field is replaced by \<open>desired\<close> exactly when it holds \<open>expected\<close>, and the
  call returns whether it did. \<open>store\<close> writes the value field.
\<close>

definition compare_exchange_key ::
  "('k, 'v) memory \<Rightarrow> nat \<Rightarrow> 'k \<Rightarrow> 'k \<Rightarrow> ('k, 'v) memory \<times> bool" where
  "compare_exchange_key m s expected desired =
     (if fst (m s) = expected then (m(s := (desired, snd (m s))), True) else (m, False))"

definition compare_exchange_value ::
  "('k, 'v) memory \<Rightarrow> nat \<Rightarrow> 'v \<Rightarrow> 'v \<Rightarrow> ('k, 'v) memory \<times> bool" where
  "compare_exchange_value m s expected desired =
     (if snd (m s) = expected then (m(s := (fst (m s), desired)), True) else (m, False))"

definition store_value :: "('k, 'v) memory \<Rightarrow> nat \<Rightarrow> 'v \<Rightarrow> ('k, 'v) memory" where
  "store_value m s v = m(s := (fst (m s), v))"

section \<open>Probing sequence\<close>

text \<open>
  Modelled from the spec: \<open>initial_slot(k, hash)\<close> is declared in \<open>static_multimap.cuh\<close>,
  which is not among the sources. Spec 4.2: a single worker starts at \<open>h(k) mod capacity\<close>.
\<close>

definition initial_slot :: "('k, 'v) view \<Rightarrow> 'k \<Rightarrow> ('k \<Rightarrow> nat) \<Rightarrow> nat" where
  "initial_slot t k hash = hash k mod capacity t"

text \<open>
  Modelled from the spec: \<open>next_slot(s)\<close> is declared in \<open>static_multimap.cuh\<close>, which is not
  among the sources. Spec 4.2: a single worker steps by one slot, \<open>(i + 1) mod capacity\<close>.
\<close>

definition next_slot :: "('k, 'v) view \<Rightarrow> nat \<Rightarrow> nat" where
  "next_slot t s = (s + 1) mod capacity t"

text \<open>
  Modelled from the spec: \<open>initial_slot(g, k, hash)\<close> is declared in \<open>static_multimap.cuh\<close>,
  which is not among the sources. Spec 4.2 and 4.4: a group of \<open>W\<close> lanes starts at the window
  \<open>(h(k) mod (capacity / W)) * W\<close>, and the lane of rank \<open>r\<close> holds the slot \<open>r\<close> of the
  window.
\<close>

definition initial_slot_cg :: "('k, 'v) view \<Rightarrow> nat \<Rightarrow> nat \<Rightarrow> 'k \<Rightarrow> ('k \<Rightarrow> nat) \<Rightarrow> nat" where
  "initial_slot_cg t W rank k hash = (hash k mod (capacity t div W)) * W + rank"

text \<open>
  Modelled from the spec: \<open>next_slot(g, s)\<close> is declared in \<open>static_multimap.cuh\<close>, which is
  not among the sources. Spec 4.2: a group steps by one window, \<open>(i + W) mod capacity\<close>.
\<close>

definition next_slot_cg :: "('k, 'v) view \<Rightarrow> nat \<Rightarrow> nat \<Rightarrow> nat" where
  "next_slot_cg t W s = (s + W) mod capacity t"

section \<open>Single-worker insert\<close>

text \<open>
  \<open>device_mutable_view::insert(insert_pair, hash, key_equal)\<close>. Other workers write the same
  slots while this one runs, so the function is modelled by its atomic steps: a program
  point, the worker's locals, and one step per atomic operation on the shared memory.
  \<^item> \<open>KeyCAS\<close>: the compare-exchange of the key field of \<open>current_slot\<close>;
  \<^item> \<open>ValueCAS\<close>: the compare-exchange of its value field, and the branch on both results;
  \<^item> \<open>RetryValueCAS\<close>: the inner loop \<open>while (not value_success)\<close>;
  \<^item> \<open>Rollback\<close>: the store of the value sentinel, then \<open>next_slot\<close>;
  \<^item> \<open>Returned\<close>: after \<open>return\<close>.
  The worker starts in \<open>insert_init\<close>, which takes the parameters of the function; the
  body does not use \<open>key_equal\<close>.
\<close>

datatype pc = KeyCAS | ValueCAS | RetryValueCAS | Rollback | Returned

record worker =
  pc :: pc
  current_slot :: nat
  key_success :: bool

definition insert_init ::
  "('k, 'v) view \<Rightarrow> 'k \<times> 'v \<Rightarrow> ('k \<Rightarrow> nat) \<Rightarrow> ('k \<Rightarrow> 'k \<Rightarrow> bool) \<Rightarrow> worker" where
  "insert_init t insert_pair hash key_equal =
     \<lparr>pc = KeyCAS, current_slot = initial_slot t (fst insert_pair) hash, key_success = False\<rparr>"

definition insert_step ::
  "('k, 'v) view \<Rightarrow> 'k \<times> 'v \<Rightarrow> ('k, 'v) memory \<Rightarrow> worker \<Rightarrow> ('k, 'v) memory \<times> worker" where
  "insert_step t insert_pair m w =
     (case pc w of
        KeyCAS \<Rightarrow>
          (case compare_exchange_key m (current_slot w) (empty_key_sentinel t) (fst insert_pair) of
             (m', ks) \<Rightarrow> (m', w\<lparr>pc := ValueCAS, key_success := ks\<rparr>))
      | ValueCAS \<Rightarrow>
          (case compare_exchange_value m (current_slot w) (empty_value_sentinel t)
                  (snd insert_pair) of
             (m', value_success) \<Rightarrow>
               if key_success w then
                 (if value_success then (m', w\<lparr>pc := Returned\<rparr>)
                  else (m', w\<lparr>pc := RetryValueCAS\<rparr>))
               else if value_success then (m', w\<lparr>pc := Rollback\<rparr>)
               else (m', w\<lparr>pc := KeyCAS, current_slot := next_slot t (current_slot w)\<rparr>))
      | RetryValueCAS \<Rightarrow>
          (case compare_exchange_value m (current_slot w) (empty_value_sentinel t)
                  (snd insert_pair) of
             (m', value_success) \<Rightarrow>
               if value_success then (m', w\<lparr>pc := Returned\<rparr>) else (m', w))
      | Rollback \<Rightarrow>
          (store_value m (current_slot w) (empty_value_sentinel t),
           w\<lparr>pc := KeyCAS, current_slot := next_slot t (current_slot w)\<rparr>)
      | Returned \<Rightarrow> (m, w))"

text \<open>
  An execution of the worker among others: before each of its atomic steps the rest of the
  system has changed the memory by some function (the identity when nothing else runs).
\<close>

fun insert_exec ::
  "(('k, 'v) memory \<Rightarrow> ('k, 'v) memory) list \<Rightarrow> ('k, 'v) view \<Rightarrow> 'k \<times> 'v \<Rightarrow>
   ('k, 'v) memory \<Rightarrow> worker \<Rightarrow> ('k, 'v) memory \<times> worker" where
  "insert_exec [] t insert_pair m w = (m, w)"
| "insert_exec (e # es) t insert_pair m w =
     (case insert_step t insert_pair (e m) w of (m', w') \<Rightarrow> insert_exec es t insert_pair m' w')"


section \<open>Group primitives\<close>

text \<open>
  A cooperative group is the list of its lanes by rank. \<open>g.ballot(pred)\<close> is the mask with
  bit \<open>r\<close> set exactly when the predicate holds in lane \<open>r\<close>; \<open>__ffs(mask)\<close> is the
  position of the lowest set bit counted from 1, and 0 for the empty mask; \<open>g.shfl(x, r)\<close>
  is the value of \<open>x\<close> in lane \<open>r\<close>; \<open>g.any(pred)\<close> holds when the predicate holds in some
  lane. A group has at most 32 lanes, so its masks fit the 32 bits of the source's.
\<close>

fun ballot :: "bool list \<Rightarrow> nat" where
  "ballot [] = 0"
| "ballot (p # ps) = (if p then 1 else 0) + 2 * ballot ps"

fun ffs :: "nat \<Rightarrow> nat" where
  "ffs x = (if x = 0 then 0 else if odd x then 1 else Suc (ffs (x div 2)))"

declare ffs.simps [simp del]

definition shfl :: "'a list \<Rightarrow> nat \<Rightarrow> 'a" where
  "shfl xs src_lane = xs ! src_lane"

definition cg_any :: "bool list \<Rightarrow> bool" where
  "cg_any ps = (ballot ps \<noteq> 0)"

section \<open>Group-cooperative insert\<close>

text \<open>
  \<open>device_mutable_view::insert(g, insert_pair, hash, key_equal)\<close>, again by atomic steps.
  \<open>lane_slot\<close> holds the \<open>current_slot\<close> of every lane and \<open>status\<close> the \<open>status\<close> of every
  lane. Every lane loads the two slots \<open>arr[0]\<close> and \<open>arr[1]\<close> that start at its
  \<open>current_slot\<close>.
  \<^item> \<open>LoadWindow\<close>: the vector loads, the two emptiness tests of every lane, the ballot and,
    when no lane saw an empty slot, \<open>next_slot\<close>;
  \<^item> \<open>ElectedKeyCAS\<close>, \<open>ElectedValueCAS\<close>, \<open>ElectedRetryValueCAS\<close>, \<open>ElectedRollback\<close>: the
    atomic operations of the lane \<open>src_lane\<close> on \<open>insert_location\<close>;
  \<^item> \<open>AnySuccess\<close>: the vote \<open>g.any(status == insert_result::SUCCESS)\<close>;
  \<^item> \<open>GroupReturned\<close>: after \<open>return\<close>.
  The source compares the loaded keys with \<open>get_empty_value_sentinel()\<close>, which fixes the
  key type and the value type to be the same. The body does not use \<open>key_equal\<close>.
\<close>

datatype cg_pc =
  LoadWindow | ElectedKeyCAS | ElectedValueCAS | ElectedRetryValueCAS | ElectedRollback
  | AnySuccess | GroupReturned

record group =
  cg_pc :: cg_pc
  lane_slot :: "nat list"
  src_lane :: nat
  insert_location :: nat
  cg_key_success :: bool
  status :: "insert_result list"

definition first_slot_is_empty :: "('a, 'a) view \<Rightarrow> ('a, 'a) memory \<Rightarrow> nat \<Rightarrow> bool" where
  "first_slot_is_empty t m c = bitwise_compare (fst (m c)) (empty_value_sentinel t)"

definition second_slot_is_empty :: "('a, 'a) view \<Rightarrow> ('a, 'a) memory \<Rightarrow> nat \<Rightarrow> bool" where
  "second_slot_is_empty t m c = bitwise_compare (fst (m (c + 1))) (empty_value_sentinel t)"

definition window_contains_empty :: "('a, 'a) view \<Rightarrow> ('a, 'a) memory \<Rightarrow> nat list \<Rightarrow> nat" where
  "window_contains_empty t m cs =
     ballot (map (\<lambda>c. first_slot_is_empty t m c \<or> second_slot_is_empty t m c) cs)"

definition insert_cg_init ::
  "('a, 'a) view \<Rightarrow> nat \<Rightarrow> 'a \<times> 'a \<Rightarrow> ('a \<Rightarrow> nat) \<Rightarrow> ('a \<Rightarrow> 'a \<Rightarrow> bool) \<Rightarrow> group" where
  "insert_cg_init t W insert_pair hash key_equal =
     \<lparr>cg_pc = LoadWindow,
      lane_slot = map (\<lambda>rank. initial_slot_cg t W rank (fst insert_pair) hash) [0..<W],
      src_lane = 0, insert_location = 0, cg_key_success = False,
      status = replicate W CONTINUE\<rparr>"

definition insert_cg_step ::
  "('a, 'a) view \<Rightarrow> 'a \<times> 'a \<Rightarrow> ('a, 'a) memory \<Rightarrow> group \<Rightarrow> ('a, 'a) memory \<times> group" where
  "insert_cg_step t insert_pair m g =
     (case cg_pc g of
        LoadWindow \<Rightarrow>
          (if window_contains_empty t m (lane_slot g) \<noteq> 0 then
             (let src = ffs (window_contains_empty t m (lane_slot g)) - 1;
                  cur = lane_slot g ! src
              in (m, g\<lparr>cg_pc := ElectedKeyCAS,
                       status := replicate (length (lane_slot g)) CONTINUE,
                       src_lane := src,
                       insert_location := cur + (if first_slot_is_empty t m cur then 0 else 1)\<rparr>))
           else (m, g\<lparr>lane_slot :=
                        map (next_slot_cg t (length (lane_slot g))) (lane_slot g)\<rparr>))
      | ElectedKeyCAS \<Rightarrow>
          (case compare_exchange_key m (insert_location g) (empty_key_sentinel t)
                  (fst insert_pair) of
             (m', ks) \<Rightarrow> (m', g\<lparr>cg_pc := ElectedValueCAS, cg_key_success := ks\<rparr>))
      | ElectedValueCAS \<Rightarrow>
          (case compare_exchange_value m (insert_location g) (empty_value_sentinel t)
                  (snd insert_pair) of
             (m', value_success) \<Rightarrow>
               if cg_key_success g then
                 (if value_success then
                    (m', g\<lparr>cg_pc := AnySuccess, status := (status g)[src_lane g := SUCCESS]\<rparr>)
                  else (m', g\<lparr>cg_pc := ElectedRetryValueCAS\<rparr>))
               else if value_success then (m', g\<lparr>cg_pc := ElectedRollback\<rparr>)
               else (m', g\<lparr>cg_pc := AnySuccess\<rparr>))
      | ElectedRetryValueCAS \<Rightarrow>
          (case compare_exchange_value m (insert_location g) (empty_value_sentinel t)
                  (snd insert_pair) of
             (m', value_success) \<Rightarrow>
               if value_success then
                 (m', g\<lparr>cg_pc := AnySuccess, status := (status g)[src_lane g := SUCCESS]\<rparr>)
               else (m', g))
      | ElectedRollback \<Rightarrow>
          (store_value m (insert_location g) (empty_value_sentinel t), g\<lparr>cg_pc := AnySuccess\<rparr>)
      | AnySuccess \<Rightarrow>
          (if cg_any (map (\<lambda>st. st = SUCCESS) (status g)) then (m, g\<lparr>cg_pc := GroupReturned\<rparr>)
           else (m, g\<lparr>cg_pc := LoadWindow\<rparr>))
      | GroupReturned \<Rightarrow> (m, g))"

fun insert_cg_exec ::
  "(('a, 'a) memory \<Rightarrow> ('a, 'a) memory) list \<Rightarrow> ('a, 'a) view \<Rightarrow> 'a \<times> 'a \<Rightarrow>
   ('a, 'a) memory \<Rightarrow> group \<Rightarrow> ('a, 'a) memory \<times> group" where
  "insert_cg_exec [] t insert_pair m g = (m, g)"
| "insert_cg_exec (e # es) t insert_pair m g =
     (case insert_cg_step t insert_pair (e m) g of
        (m', g') \<Rightarrow> insert_cg_exec es t insert_pair m' g')"

definition insert_cg_alone ::
  "nat \<Rightarrow> ('a, 'a) view \<Rightarrow> 'a \<times> 'a \<Rightarrow> ('a, 'a) memory \<Rightarrow> group \<Rightarrow> ('a, 'a) memory \<times> group" where
  "insert_cg_alone n t insert_pair m g = insert_cg_exec (replicate n id) t insert_pair m g"

section \<open>Single-worker find and contains\<close>

text \<open>
  The lookups run on a table that no one writes (the driver synchronises between bulk
  calls), so each is the loop of its source on a fixed memory. The loops need not end: the
  first argument bounds the number of iterations, and the result is \<open>None\<close> when the bound
  was reached before the loop returned. Next to its result every lookup gives the arguments
  of the calls of the caller's \<open>key_equal\<close> that it has made, in the order of the calls.
\<close>

fun find_loop ::
  "nat \<Rightarrow> ('k, 'v) view \<Rightarrow> ('k, 'v) memory \<Rightarrow> 'k \<Rightarrow> ('k \<Rightarrow> 'k \<Rightarrow> bool) \<Rightarrow> nat \<Rightarrow>
   ('k \<times> 'k) list \<Rightarrow> nat option \<times> ('k \<times> 'k) list" where
  "find_loop 0 t m k key_equal cur calls = (None, calls)"
| "find_loop (Suc n) t m k key_equal cur calls =
     (let existing_key = fst (m cur) in
      if bitwise_compare existing_key (empty_key_sentinel t) then (Some (end_slot t), calls)
      else if key_equal existing_key k then (Some cur, calls @ [(existing_key, k)])
      else find_loop n t m k key_equal (next_slot t cur) (calls @ [(existing_key, k)]))"

definition find_slot ::
  "nat \<Rightarrow> ('k, 'v) view \<Rightarrow> ('k, 'v) memory \<Rightarrow> 'k \<Rightarrow> ('k \<Rightarrow> nat) \<Rightarrow> ('k \<Rightarrow> 'k \<Rightarrow> bool) \<Rightarrow>
   nat option \<times> ('k \<times> 'k) list" where
  "find_slot n t m k hash key_equal = find_loop n t m k key_equal (initial_slot t k hash) []"

fun contains_loop ::
  "nat \<Rightarrow> ('k, 'v) view \<Rightarrow> ('k, 'v) memory \<Rightarrow> 'k \<Rightarrow> ('k \<Rightarrow> 'k \<Rightarrow> bool) \<Rightarrow> nat \<Rightarrow>
   ('k \<times> 'k) list \<Rightarrow> bool option \<times> ('k \<times> 'k) list" where
  "contains_loop 0 t m k key_equal cur calls = (None, calls)"
| "contains_loop (Suc n) t m k key_equal cur calls =
     (let existing_key = fst (m cur) in
      if bitwise_compare existing_key (empty_key_sentinel t) then (Some False, calls)
      else if key_equal existing_key k then (Some True, calls @ [(existing_key, k)])
      else contains_loop n t m k key_equal (next_slot t cur) (calls @ [(existing_key, k)]))"

definition contains ::
  "nat \<Rightarrow> ('k, 'v) view \<Rightarrow> ('k, 'v) memory \<Rightarrow> 'k \<Rightarrow> ('k \<Rightarrow> nat) \<Rightarrow> ('k \<Rightarrow> 'k \<Rightarrow> bool) \<Rightarrow>
   bool option \<times> ('k \<times> 'k) list" where
  "contains n t m k hash key_equal = contains_loop n t m k key_equal (initial_slot t k hash) []"

section \<open>Group-cooperative find, contains and find_all\<close>

text \<open>
  Every lane loads the key of its own \<open>current_slot\<close>; \<open>cs\<close> holds the \<open>current_slot\<close> of
  every lane, by rank. A lane calls \<open>key_equal\<close> only when its slot is not empty, since
  \<open>and\<close> does not evaluate its second operand after a false first one.
\<close>

definition key_equal_calls :: "'k list \<Rightarrow> bool list \<Rightarrow> 'k \<Rightarrow> ('k \<times> 'k) list" where
  "key_equal_calls existing_key slot_is_empty k =
     map (\<lambda>(e, _). (e, k)) (filter (\<lambda>(_, empty). \<not> empty) (zip existing_key slot_is_empty))"

fun find_cg_loop ::
  "nat \<Rightarrow> ('k, 'v) view \<Rightarrow> ('k, 'v) memory \<Rightarrow> 'k \<Rightarrow> ('k \<Rightarrow> 'k \<Rightarrow> bool) \<Rightarrow> nat list \<Rightarrow>
   ('k \<times> 'k) list \<Rightarrow> nat option \<times> ('k \<times> 'k) list" where
  "find_cg_loop 0 t m k key_equal cs calls = (None, calls)"
| "find_cg_loop (Suc n) t m k key_equal cs calls =
     (let existing_key = map (\<lambda>c. fst (m c)) cs;
          slot_is_empty = map (\<lambda>e. bitwise_compare e (empty_key_sentinel t)) existing_key;
          exists = ballot (map (\<lambda>(e, empty). \<not> empty \<and> key_equal e k)
                             (zip existing_key slot_is_empty));
          calls' = calls @ key_equal_calls existing_key slot_is_empty k
      in if exists \<noteq> 0 then
           (let src_lane = ffs exists - 1; res_slot = shfl cs src_lane
            in (Some res_slot, calls'))
         else if ballot slot_is_empty \<noteq> 0 then (Some (end_slot t), calls')
         else find_cg_loop n t m k key_equal (map (next_slot_cg t (length cs)) cs) calls')"

definition find_cg ::
  "nat \<Rightarrow> ('k, 'v) view \<Rightarrow> ('k, 'v) memory \<Rightarrow> nat \<Rightarrow> 'k \<Rightarrow> ('k \<Rightarrow> nat) \<Rightarrow> ('k \<Rightarrow> 'k \<Rightarrow> bool) \<Rightarrow>
   nat option \<times> ('k \<times> 'k) list" where
  "find_cg n t m W k hash key_equal =
     find_cg_loop n t m k key_equal (map (\<lambda>rank. initial_slot_cg t W rank k hash) [0..<W]) []"

fun contains_cg_loop ::
  "nat \<Rightarrow> ('k, 'v) view \<Rightarrow> ('k, 'v) memory \<Rightarrow> 'k \<Rightarrow> ('k \<Rightarrow> 'k \<Rightarrow> bool) \<Rightarrow> nat list \<Rightarrow>
   ('k \<times> 'k) list \<Rightarrow> bool option \<times> ('k \<times> 'k) list" where
  "contains_cg_loop 0 t m k key_equal cs calls = (None, calls)"
| "contains_cg_loop (Suc n) t m k key_equal cs calls =
     (let existing_key = map (\<lambda>c. fst (m c)) cs;
          slot_is_empty = map (\<lambda>e. bitwise_compare e (empty_key_sentinel t)) existing_key;
          calls' = calls @ key_equal_calls existing_key slot_is_empty k
      in if ballot (map (\<lambda>(e, empty). \<not> empty \<and> key_equal e k)
                      (zip existing_key slot_is_empty)) \<noteq> 0 then (Some True, calls')
         else if ballot slot_is_empty \<noteq> 0 then (Some False, calls')
         else contains_cg_loop n t m k key_equal (map (next_slot_cg t (length cs)) cs) calls')"

definition contains_cg ::
  "nat \<Rightarrow> ('k, 'v) view \<Rightarrow> ('k, 'v) memory \<Rightarrow> nat \<Rightarrow> 'k \<Rightarrow> ('k \<Rightarrow> nat) \<Rightarrow> ('k \<Rightarrow> 'k \<Rightarrow> bool) \<Rightarrow>
   bool option \<times> ('k \<times> 'k) list" where
  "contains_cg n t m W k hash key_equal =
     contains_cg_loop n t m k key_equal
       (map (\<lambda>rank. initial_slot_cg t W rank k hash) [0..<W]) []"

text \<open>
  The cursor of an enumeration, \<open>fancy_iterator{slot, k, view}\<close>: the current slot and the
  key that is enumerated. It is built from these alone, so it does not hold the caller's
  \<open>key_equal\<close>.
\<close>

record 'k fancy_iterator =
  slot_index :: nat
  key :: 'k

text \<open>
  \<open>find_all\<close> does not call \<open>detail::bitwise_compare\<close>: it tests the sentinel with
  \<open>existing_key == this->get_empty_key_sentinel()\<close>, the \<open>==\<close> of the type \<open>Key\<close>. That
  operator belongs to the key type and not to the table, so it is the parameter \<open>op_eq\<close>; for
  an integral key it is the equality of bit patterns, for a floating-point key it is not.
\<close>

fun find_all_cg_loop ::
  "nat \<Rightarrow> ('k, 'v) view \<Rightarrow> ('k, 'v) memory \<Rightarrow> ('k \<Rightarrow> 'k \<Rightarrow> bool) \<Rightarrow> 'k \<Rightarrow>
   ('k \<Rightarrow> 'k \<Rightarrow> bool) \<Rightarrow> nat list \<Rightarrow> ('k \<times> 'k) list \<Rightarrow>
   'k fancy_iterator option \<times> ('k \<times> 'k) list" where
  "find_all_cg_loop 0 t m op_eq k key_equal cs calls = (None, calls)"
| "find_all_cg_loop (Suc n) t m op_eq k key_equal cs calls =
     (let existing_key = map (\<lambda>c. fst (m c)) cs;
          slot_is_empty = map (\<lambda>e. op_eq e (empty_key_sentinel t)) existing_key;
          exists = ballot (map (\<lambda>(e, empty). \<not> empty \<and> key_equal e k)
                             (zip existing_key slot_is_empty));
          calls' = calls @ key_equal_calls existing_key slot_is_empty k
      in if exists \<noteq> 0 then
           (let src_lane = ffs exists - 1; res_slot = shfl cs src_lane
            in (Some \<lparr>slot_index = res_slot, key = k\<rparr>, calls'))
         else if ballot slot_is_empty \<noteq> 0
         then (Some \<lparr>slot_index = end_slot t, key = k\<rparr>, calls')
         else find_all_cg_loop n t m op_eq k key_equal (map (next_slot_cg t (length cs)) cs)
                calls')"

definition find_all_cg ::
  "nat \<Rightarrow> ('k, 'v) view \<Rightarrow> ('k, 'v) memory \<Rightarrow> ('k \<Rightarrow> 'k \<Rightarrow> bool) \<Rightarrow> nat \<Rightarrow> 'k \<Rightarrow>
   ('k \<Rightarrow> nat) \<Rightarrow> ('k \<Rightarrow> 'k \<Rightarrow> bool) \<Rightarrow> 'k fancy_iterator option \<times> ('k \<times> 'k) list" where
  "find_all_cg n t m op_eq W k hash key_equal =
     find_all_cg_loop n t m op_eq k key_equal
       (map (\<lambda>rank. initial_slot_cg t W rank k hash) [0..<W]) []"

section \<open>Count\<close>

text \<open>
  \<open>count\<close> takes the cursor of \<open>find_all\<close> and advances it until it equals \<open>end()\<close>,
  counting the steps. The cursor's \<open>operator++\<close> is declared in \<open>static_multimap.cuh\<close>, which
  is not among the sources, and so is the single-worker \<open>find_all\<close>: both are parameters
  here (\<open>incr\<close>, and \<open>find_all\<close> for what the call returns). The cursor does not hold
  \<open>key_equal\<close>, so advancing it adds no call. A table has fewer than \<open>2 ^ 64\<close> slots, so
  the \<open>size_t\<close> counter is a natural number.
\<close>

fun count_loop ::
  "nat \<Rightarrow> ('k, 'v) view \<Rightarrow> ('k fancy_iterator \<Rightarrow> 'k fancy_iterator) \<Rightarrow> 'k fancy_iterator \<Rightarrow>
   nat \<Rightarrow> nat option" where
  "count_loop 0 t incr found count = None"
| "count_loop (Suc n) t incr found count =
     (if slot_index found \<noteq> end_slot t then count_loop n t incr (incr found) (count + 1)
      else Some count)"

definition count_sw ::
  "nat \<Rightarrow> ('k, 'v) view \<Rightarrow> 'k fancy_iterator option \<times> ('k \<times> 'k) list \<Rightarrow>
   ('k fancy_iterator \<Rightarrow> 'k fancy_iterator) \<Rightarrow> nat option \<times> ('k \<times> 'k) list" where
  "count_sw n t find_all incr =
     (case find_all of
        (None, calls) \<Rightarrow> (None, calls)
      | (Some found, calls) \<Rightarrow> (count_loop n t incr found 0, calls))"

definition count_cg ::
  "nat \<Rightarrow> ('k, 'v) view \<Rightarrow> ('k, 'v) memory \<Rightarrow> ('k \<Rightarrow> 'k \<Rightarrow> bool) \<Rightarrow> nat \<Rightarrow> 'k \<Rightarrow>
   ('k \<Rightarrow> nat) \<Rightarrow> ('k \<Rightarrow> 'k \<Rightarrow> bool) \<Rightarrow> ('k fancy_iterator \<Rightarrow> 'k fancy_iterator) \<Rightarrow>
   nat option \<times> ('k \<times> 'k) list" where
  "count_cg n t m op_eq W k hash key_equal incr =
     (case find_all_cg n t m op_eq W k hash key_equal of
        (None, calls) \<Rightarrow> (None, calls)
      | (Some found, calls) \<Rightarrow> (count_loop n t incr found 0, calls))"

text \<open>
  The sequence of matches that iterating a cursor until \<open>end()\<close> produces, following the
  words of the spec (4.5): the slots the cursor stands on, in order.
\<close>

fun matches ::
  "nat \<Rightarrow> ('k, 'v) view \<Rightarrow> ('k fancy_iterator \<Rightarrow> 'k fancy_iterator) \<Rightarrow> 'k fancy_iterator \<Rightarrow>
   nat list option" where
  "matches 0 t incr found = None"
| "matches (Suc n) t incr found =
     (if slot_index found = end_slot t then Some []
      else map_option ((#) (slot_index found)) (matches n t incr (incr found)))"

section \<open>Notions used by the statements\<close>

text \<open>A memory whose first cells are the slots \<open>xs\<close> of a table; every later cell holds \<open>d\<close>.\<close>

definition memory_of :: "('k \<times> 'v) list \<Rightarrow> 'k \<times> 'v \<Rightarrow> ('k, 'v) memory" where
  "memory_of xs d i = (if i < length xs then xs ! i else d)"










text \<open>
  The table of scenario 3 of the spec: capacity 4, both sentinels \<open>-1\<close>, the hash the
  identity, all four slots full, in a memory whose cells after the table hold \<open>(0, 0)\<close>; and
  the same table before any insert. \<open>scenario_full_then_empty\<close> is the full table in a memory
  whose cells after the table hold the sentinel pair, as the slots of a table allocated next
  to it would.
\<close>

definition scenario_view :: "(int, int) view" where
  "scenario_view = \<lparr>capacity = 4, empty_key_sentinel = - 1, empty_value_sentinel = - 1\<rparr>"

definition scenario_full :: "(int, int) memory" where
  "scenario_full = memory_of [(1, 10), (2, 20), (3, 30), (4, 40)] (0, 0)"

definition scenario_empty :: "(int, int) memory" where
  "scenario_empty = memory_of [(- 1, - 1), (- 1, - 1), (- 1, - 1), (- 1, - 1)] (0, 0)"


text \<open>
  Three states of slot 1 of that table during inserts: the inserter of the key 5 has won the
  key and not yet written its value; another inserter has, with the key 9; and the key 5 is
  in place while the value field holds the value 99 of another inserter, before that
  inserter rolls it back.
\<close>

definition scenario_won :: "(int, int) memory" where
  "scenario_won = memory_of [(- 1, - 1), (5, - 1), (- 1, - 1), (- 1, - 1)] (0, 0)"

definition scenario_claimed :: "(int, int) memory" where
  "scenario_claimed = memory_of [(- 1, - 1), (9, - 1), (- 1, - 1), (- 1, - 1)] (0, 0)"

definition scenario_spurious :: "(int, int) memory" where
  "scenario_spurious = memory_of [(- 1, - 1), (5, 99), (- 1, - 1), (- 1, - 1)] (0, 0)"

text \<open>
  What a worker or a lane finds in the slot \<open>c\<close>: the empty key, or a key other than the
  empty key that \<open>key_equal\<close> accepts for \<open>k\<close>. The \<open>j\<close>-th slot of a single worker's
  probing sequence from slot \<open>s\<close>, and the \<open>j\<close>-th window of a group's from the lanes \<open>cs\<close>.
\<close>

definition slot_empty :: "('k, 'v) view \<Rightarrow> ('k, 'v) memory \<Rightarrow> nat \<Rightarrow> bool" where
  "slot_empty t m c = bitwise_compare (fst (m c)) (empty_key_sentinel t)"

definition slot_matches ::
  "('k, 'v) view \<Rightarrow> ('k, 'v) memory \<Rightarrow> 'k \<Rightarrow> ('k \<Rightarrow> 'k \<Rightarrow> bool) \<Rightarrow> nat \<Rightarrow> bool" where
  "slot_matches t m k key_equal c = (\<not> slot_empty t m c \<and> key_equal (fst (m c)) k)"

definition probe :: "('k, 'v) view \<Rightarrow> nat \<Rightarrow> nat \<Rightarrow> nat" where
  "probe t s j = (next_slot t ^^ j) s"

definition window :: "('k, 'v) view \<Rightarrow> nat list \<Rightarrow> nat \<Rightarrow> nat list" where
  "window t cs j = (map (next_slot_cg t (length cs)) ^^ j) cs"

text \<open>
  The table of scenario 2 of the spec: two lanes, capacity 8, the hash the identity, after
  the inserts of \<open>(0, 100)\<close>, \<open>(8, 101)\<close> and \<open>(16, 102)\<close>, which all start at window 0.
\<close>

definition lookup_view :: "(int, int) view" where
  "lookup_view = \<lparr>capacity = 8, empty_key_sentinel = - 1, empty_value_sentinel = - 1\<rparr>"

definition lookup_table :: "(int, int) memory" where
  "lookup_table =
     memory_of [(0, 100), (8, 101), (16, 102), (- 1, - 1), (- 1, - 1), (- 1, - 1), (- 1, - 1),
                (- 1, - 1)] (0, 0)"

text \<open>
  A table that holds the pairs of scenario 1 of the spec: capacity 8, the hash the identity,
  the pairs \<open>(1, 10)\<close>, \<open>(2, 20)\<close>, \<open>(1, 11)\<close>, \<open>(3, 30)\<close> and \<open>(1, 12)\<close> in the slots that a
  single worker inserting them in this order gives them.
\<close>

definition multi_table :: "(int, int) memory" where
  "multi_table =
     memory_of [(- 1, - 1), (1, 10), (2, 20), (1, 11), (3, 30), (1, 12), (- 1, - 1),
                (- 1, - 1)] (0, 0)"



text \<open>
  A table of capacity 4 whose two sentinels differ, \<open>-1\<close> for the key and \<open>-2\<close> for the
  value, before any insert.
\<close>

definition distinct_view :: "(int, int) view" where
  "distinct_view = \<lparr>capacity = 4, empty_key_sentinel = - 1, empty_value_sentinel = - 2\<rparr>"

definition distinct_empty :: "(int, int) memory" where
  "distinct_empty = memory_of [(- 1, - 2), (- 1, - 2), (- 1, - 2), (- 1, - 2)] (0, 0)"



text \<open>
  All the calls of \<open>key_equal\<close> that \<open>find\<close> and \<open>contains\<close> of the key \<open>k\<close> make, by a
  single worker and by a group.
\<close>

definition lookup_calls ::
  "nat \<Rightarrow> ('k, 'v) view \<Rightarrow> ('k, 'v) memory \<Rightarrow> nat \<Rightarrow> 'k \<Rightarrow> ('k \<Rightarrow> nat) \<Rightarrow> ('k \<Rightarrow> 'k \<Rightarrow> bool) \<Rightarrow>
   ('k \<times> 'k) list" where
  "lookup_calls n t m W k hash key_equal =
     snd (find_slot n t m k hash key_equal) @ snd (contains n t m k hash key_equal) @
     snd (find_cg n t m W k hash key_equal) @ snd (contains_cg n t m W k hash key_equal)"

text \<open>
  Keys of type \<open>float\<close>, by their 32 bits read as an unsigned integer: bit 31 is the sign,
  the bits 30 to 23 the exponent, the bits 22 to 0 the fraction. The \<open>==\<close> of \<open>float\<close>
  (IEEE 754): a NaN, which has all exponent bits set and a fraction other than 0, equals
  nothing, not even itself; the two zeros, which differ in the sign bit, are equal; any other
  two values are equal when their bits are.
\<close>

definition float_is_nan :: "int \<Rightarrow> bool" where
  "float_is_nan x = (x div 2 ^ 23 mod 2 ^ 8 = 255 \<and> x mod 2 ^ 23 \<noteq> 0)"

definition float_is_zero :: "int \<Rightarrow> bool" where
  "float_is_zero x = (x mod 2 ^ 31 = 0)"

definition float_equal :: "int \<Rightarrow> int \<Rightarrow> bool" where
  "float_equal x y =
     (\<not> float_is_nan x \<and> \<not> float_is_nan y \<and> (x = y \<or> (float_is_zero x \<and> float_is_zero y)))"

text \<open>The bits of the quiet NaN \<open>0x7FC00000\<close>, of \<open>1.0f\<close>, of \<open>+0.0f\<close> and of \<open>-0.0f\<close>.\<close>

definition float_quiet_nan :: int where
  "float_quiet_nan = 2143289344"

definition float_one :: int where
  "float_one = 1065353216"

definition float_zero :: int where
  "float_zero = 0"

definition float_negative_zero :: int where
  "float_negative_zero = 2147483648"

text \<open>A hash of a \<open>float\<close> key: its two lowest bits.\<close>

definition float_hash :: "int \<Rightarrow> nat" where
  "float_hash x = nat (x mod 4)"

text \<open>
  Two tables of capacity 4 with \<open>float\<close> keys. The first has the quiet NaN as its empty key
  and is empty. The second has \<open>+0.0f\<close> as its empty key and holds the key \<open>-0.0f\<close>, whose
  bits differ from the sentinel's, in slot 0.
\<close>

definition nan_view :: "(int, int) view" where
  "nan_view =
     \<lparr>capacity = 4, empty_key_sentinel = float_quiet_nan, empty_value_sentinel = float_quiet_nan\<rparr>"

definition nan_empty :: "(int, int) memory" where
  "nan_empty =
     memory_of [(float_quiet_nan, float_quiet_nan), (float_quiet_nan, float_quiet_nan),
                (float_quiet_nan, float_quiet_nan), (float_quiet_nan, float_quiet_nan)] (0, 0)"

definition zero_view :: "(int, int) view" where
  "zero_view = \<lparr>capacity = 4, empty_key_sentinel = float_zero, empty_value_sentinel = float_zero\<rparr>"

definition zero_table :: "(int, int) memory" where
  "zero_table =
     memory_of [(float_negative_zero, float_one), (float_zero, float_zero),
                (float_zero, float_zero), (float_zero, float_zero)] (0, 0)"


section \<open>The probing sequence stays inside the table\<close>


section \<open>The lowest set bit of a ballot\<close>

lemma ffs_pos: "x \<noteq> 0 \<Longrightarrow> 0 < ffs x"
  by (subst ffs.simps) simp

lemma ffs_odd: "odd x \<Longrightarrow> ffs x = 1"
  by (subst ffs.simps) (auto simp: odd_pos)

lemma ffs_double: "x \<noteq> 0 \<Longrightarrow> ffs (2 * x) = Suc (ffs x)"
  by (subst ffs.simps) simp

lemma ffs_ballot:
  assumes "ballot ps \<noteq> 0"
  shows "ffs (ballot ps) - 1 < length ps \<and> ps ! (ffs (ballot ps) - 1) \<and>
         (\<forall>r < ffs (ballot ps) - 1. \<not> ps ! r)"
  using assms
proof (induction ps)
  case Nil
  then show ?case by simp
next
  case (Cons p ps)
  show ?case
  proof (cases p)
    case True
    then have "ffs (ballot (p # ps)) = 1"
      by (simp add: ffs_odd)
    with True show ?thesis by simp
  next
    case False
    with Cons.prems have nz: "ballot ps \<noteq> 0"
      by simp
    then have f: "ffs (2 * ballot ps) = Suc (ffs (ballot ps))"
      by (simp add: ffs_double)
    from ffs_pos [OF nz] obtain i where i: "ffs (ballot ps) = Suc i"
      by (cases "ffs (ballot ps)") auto
    from Cons.IH [OF nz] i have "i < length ps" "ps ! i" "\<forall>r < i. \<not> ps ! r"
      by simp_all
    with False show ?thesis
      by (auto simp: f i nth_Cons')
  qed
qed

section \<open>An insert into a full table\<close>



lemma ballot_eq_0: "ballot ps = 0 \<longleftrightarrow> True \<notin> set ps"
  by (induction ps) auto















section \<open>The two-word commit of the single worker\<close>

lemma retry_exec:
  assumes "pc w = RetryValueCAS \<or> pc w = Returned"
  shows "(pc (snd (insert_exec es t p m w)) = RetryValueCAS \<or>
          pc (snd (insert_exec es t p m w)) = Returned) \<and>
         current_slot (snd (insert_exec es t p m w)) = current_slot w"
  using assms
proof (induction es arbitrary: m w)
  case Nil
  then show ?case by simp
next
  case (Cons e es)
  obtain m' w' where st: "insert_step t p (e m) w = (m', w')"
    by (cases "insert_step t p (e m) w")
  from Cons.prems st have "(pc w' = RetryValueCAS \<or> pc w' = Returned) \<and> current_slot w' = current_slot w"
    by (auto simp: insert_step_def compare_exchange_value_def split: if_splits)
  with Cons.IH[of w' m'] st show ?case by simp
qed

text \<open>
  Claim C3: the worker stands before the key compare-exchange of slot \<open>s\<close>; \<open>m\<close> is the
  memory at that step, \<open>mv\<close> the memory at the value compare-exchange, \<open>mr\<close> the memory at
  the step after it, and \<open>es\<close> any further interference. The key field becomes \<open>k\<close>
  exactly when it held the empty key. If it did and the value field holds the empty value,
  the value is written and the insert returns; if the value field holds something else the
  worker enters the retry loop, where each step returns as soon as the value field holds the
  empty value and otherwise changes nothing, and which the worker leaves only by returning,
  never leaving the slot. If the key compare-exchange failed and the value one succeeded,
  the next step stores the empty value back and moves to \<open>next_slot\<close>; if both failed the
  worker moves to \<open>next_slot\<close> at once.
\<close>

theorem insert_two_word_commit:
  assumes "pc w = KeyCAS"
  shows "let s = current_slot w; k = fst p; v = snd p;
             ek = empty_key_sentinel t; ev = empty_value_sentinel t;
             key_cas = insert_step t p m w; w1 = snd key_cas;
             value_cas = insert_step t p mv w1; w2 = snd value_cas
         in fst key_cas = (if fst (m s) = ek then m(s := (k, snd (m s))) else m) \<and>
            (fst (m s) = ek \<and> snd (mv s) = ev \<longrightarrow>
               value_cas = (mv(s := (fst (mv s), v)), w1\<lparr>pc := Returned\<rparr>)) \<and>
            (fst (m s) = ek \<and> snd (mv s) \<noteq> ev \<longrightarrow>
               value_cas = (mv, w1\<lparr>pc := RetryValueCAS\<rparr>) \<and>
               insert_step t p mr w2 =
                 (if snd (mr s) = ev then (mr(s := (fst (mr s), v)), w2\<lparr>pc := Returned\<rparr>)
                  else (mr, w2)) \<and>
               (pc (snd (insert_exec es t p mr w2)) = RetryValueCAS \<or>
                pc (snd (insert_exec es t p mr w2)) = Returned) \<and>
               current_slot (snd (insert_exec es t p mr w2)) = s) \<and>
            (fst (m s) \<noteq> ek \<and> snd (mv s) = ev \<longrightarrow>
               value_cas = (mv(s := (fst (mv s), v)), w1\<lparr>pc := Rollback\<rparr>) \<and>
               insert_step t p mr w2 =
                 (mr(s := (fst (mr s), ev)), w2\<lparr>pc := KeyCAS, current_slot := next_slot t s\<rparr>)) \<and>
            (fst (m s) \<noteq> ek \<and> snd (mv s) \<noteq> ev \<longrightarrow>
               value_cas = (mv, w1\<lparr>pc := KeyCAS, current_slot := next_slot t s\<rparr>))"
proof -
  let ?s = "current_slot w"
  let ?ks = "fst (m ?s) = empty_key_sentinel t"
  let ?w1 = "w\<lparr>pc := ValueCAS, key_success := ?ks\<rparr>"
  have k: "insert_step t p m w = (if ?ks then m(?s := (fst p, snd (m ?s))) else m, ?w1)"
    using assms by (simp add: insert_step_def compare_exchange_key_def)
  have r: "pc w2 = RetryValueCAS \<Longrightarrow> current_slot w2 = ?s \<Longrightarrow>
     (pc (snd (insert_exec es t p mr w2)) = RetryValueCAS \<or>
      pc (snd (insert_exec es t p mr w2)) = Returned) \<and>
     current_slot (snd (insert_exec es t p mr w2)) = ?s" for w2
    using retry_exec [of w2 es t p mr] by simp
  show ?thesis
    unfolding Let_def k
    using r [of "?w1\<lparr>pc := RetryValueCAS\<rparr>"]
    by (auto simp: insert_step_def compare_exchange_value_def store_value_def)
qed

text \<open>
  Witness for C3, on slot 1 of the table of scenario 3, one case for each branch: both
  compare-exchanges succeed; the key one succeeds and the value field holds another
  inserter's value; the key is taken and the value field still empty; the slot is full.
\<close>

theorem insert_two_word_commit_witness:
  "pc (insert_init scenario_view (5, 50) nat (=)) = KeyCAS \<and>
   pc (snd (insert_step scenario_view (5, 50) scenario_won
              (snd (insert_step scenario_view (5, 50) scenario_empty
                      (insert_init scenario_view (5, 50) nat (=)))))) = Returned \<and>
   pc (snd (insert_step scenario_view (5, 50) scenario_spurious
              (snd (insert_step scenario_view (5, 50) scenario_empty
                      (insert_init scenario_view (5, 50) nat (=)))))) = RetryValueCAS \<and>
   pc (snd (insert_step scenario_view (5, 50) scenario_claimed
              (snd (insert_step scenario_view (5, 50) scenario_claimed
                      (insert_init scenario_view (5, 50) nat (=)))))) = Rollback \<and>
   pc (snd (insert_step scenario_view (5, 50) scenario_full
              (snd (insert_step scenario_view (5, 50) scenario_full
                      (insert_init scenario_view (5, 50) nat (=)))))) = KeyCAS"
proof -
  let ?t = scenario_view and ?p = "(5, 50) :: int \<times> int"
  let ?w = "insert_init ?t ?p nat (=)"
  have start: "pc ?w = KeyCAS"
    by (simp add: insert_init_def)
  have slot: "current_slot ?w = Suc 0"
    by code_simp
  have sentinels: "empty_key_sentinel ?t = - 1" "empty_value_sentinel ?t = - 1"
    by (simp_all add: scenario_view_def)
  have cells:
    "scenario_empty (Suc 0) = (- 1, - 1)" "scenario_won (Suc 0) = (5, - 1)"
    "scenario_spurious (Suc 0) = (5, 99)" "scenario_claimed (Suc 0) = (9, - 1)"
    "scenario_full (Suc 0) = (2, 20)"
    by code_simp+
  note commit = insert_two_word_commit [OF start, where t = ?t and p = ?p]
  note eval = Let_def slot sentinels cells
  have "pc (snd (insert_step ?t ?p scenario_won (snd (insert_step ?t ?p scenario_empty ?w)))) = Returned"
    using commit [where m = scenario_empty and mv = scenario_won] by (simp add: eval)
  moreover
  have "pc (snd (insert_step ?t ?p scenario_spurious
                  (snd (insert_step ?t ?p scenario_empty ?w)))) = RetryValueCAS"
    using commit [where m = scenario_empty and mv = scenario_spurious] by (simp add: eval)
  moreover
  have "pc (snd (insert_step ?t ?p scenario_claimed
                  (snd (insert_step ?t ?p scenario_claimed ?w)))) = Rollback"
    using commit [where m = scenario_claimed and mv = scenario_claimed] by (simp add: eval)
  moreover
  have "pc (snd (insert_step ?t ?p scenario_full
                  (snd (insert_step ?t ?p scenario_full ?w)))) = KeyCAS"
    using commit [where m = scenario_full and mv = scenario_full] by (simp add: eval)
  ultimately show ?thesis
    using start by blast
qed

section \<open>Single-worker find and contains, slot by slot\<close>

lemma find_loop_unfold:
  "find_loop (Suc n) t m k key_equal s calls =
     (if slot_empty t m s then (Some (end_slot t), calls)
      else if slot_matches t m k key_equal s then (Some s, calls @ [(fst (m s), k)])
      else find_loop n t m k key_equal (next_slot t s) (calls @ [(fst (m s), k)]))"
  by (simp add: Let_def slot_empty_def slot_matches_def)

lemma contains_loop_unfold:
  "contains_loop (Suc n) t m k key_equal s calls =
     (if slot_empty t m s then (Some False, calls)
      else if slot_matches t m k key_equal s then (Some True, calls @ [(fst (m s), k)])
      else contains_loop n t m k key_equal (next_slot t s) (calls @ [(fst (m s), k)]))"
  by (simp add: Let_def slot_empty_def slot_matches_def)

lemma probe_0 [simp]: "probe t s 0 = s"
  by (simp add: probe_def)

lemma probe_Suc: "probe t (next_slot t s) j = probe t s (Suc j)"
  by (simp add: probe_def funpow_swap1)

lemma find_loop_calls:
  "fst (find_loop n t m k key_equal s calls) = fst (find_loop n t m k key_equal s calls')"
proof (induction n arbitrary: s calls calls')
  case 0
  then show ?case by simp
next
  case (Suc n)
  show ?case
    unfolding find_loop_unfold using Suc.IH by auto
qed

lemma contains_loop_calls:
  "fst (contains_loop n t m k key_equal s calls) = fst (contains_loop n t m k key_equal s calls')"
proof (induction n arbitrary: s calls calls')
  case 0
  then show ?case by simp
next
  case (Suc n)
  show ?case
    unfolding contains_loop_unfold using Suc.IH by auto
qed

lemma find_loop_skip:
  assumes "\<forall>i < j. \<not> slot_empty t m (probe t s i) \<and> \<not> slot_matches t m k key_equal (probe t s i)"
  shows "fst (find_loop (j + n) t m k key_equal s calls) =
         fst (find_loop n t m k key_equal (probe t s j) calls)"
  using assms
proof (induction j arbitrary: s calls)
  case 0
  then show ?case by simp
next
  case (Suc j)
  from Suc.prems have here: "\<not> slot_empty t m s" "\<not> slot_matches t m k key_equal s"
    by (auto dest: spec [of _ 0])
  have later: "\<forall>i < j. \<not> slot_empty t m (probe t (next_slot t s) i) \<and>
                 \<not> slot_matches t m k key_equal (probe t (next_slot t s) i)"
    using Suc.prems by (auto simp: probe_Suc)
  have "fst (find_loop (Suc j + n) t m k key_equal s calls) =
        fst (find_loop (j + n) t m k key_equal (next_slot t s) calls)"
    using here find_loop_calls [of "j + n" t m k key_equal "next_slot t s"]
    by (simp add: find_loop_unfold del: find_loop.simps)
  also have "\<dots> = fst (find_loop n t m k key_equal (probe t (next_slot t s) j) calls)"
    by (rule Suc.IH [OF later])
  finally show ?case
    by (simp add: probe_Suc)
qed

lemma contains_loop_skip:
  assumes "\<forall>i < j. \<not> slot_empty t m (probe t s i) \<and> \<not> slot_matches t m k key_equal (probe t s i)"
  shows "fst (contains_loop (j + n) t m k key_equal s calls) =
         fst (contains_loop n t m k key_equal (probe t s j) calls)"
  using assms
proof (induction j arbitrary: s calls)
  case 0
  then show ?case by simp
next
  case (Suc j)
  from Suc.prems have here: "\<not> slot_empty t m s" "\<not> slot_matches t m k key_equal s"
    by (auto dest: spec [of _ 0])
  have later: "\<forall>i < j. \<not> slot_empty t m (probe t (next_slot t s) i) \<and>
                 \<not> slot_matches t m k key_equal (probe t (next_slot t s) i)"
    using Suc.prems by (auto simp: probe_Suc)
  have "fst (contains_loop (Suc j + n) t m k key_equal s calls) =
        fst (contains_loop (j + n) t m k key_equal (next_slot t s) calls)"
    using here contains_loop_calls [of "j + n" t m k key_equal "next_slot t s"]
    by (simp add: contains_loop_unfold del: contains_loop.simps)
  also have "\<dots> = fst (contains_loop n t m k key_equal (probe t (next_slot t s) j) calls)"
    by (rule Suc.IH [OF later])
  finally show ?case
    by (simp add: probe_Suc)
qed

text \<open>
  Claim C4: \<open>find\<close> and \<open>contains\<close> start at \<open>initial_slot\<close>. The worker has passed the first
  \<open>j\<close> slots of its probing sequence, none of them empty or accepted by \<open>key_equal\<close>, and
  the bound \<open>n\<close> lets it examine the next slot \<open>c\<close>. If the key of \<open>c\<close> bitwise-equals the
  empty key, \<open>find\<close> returns \<open>end()\<close> and \<open>contains\<close> false. If \<open>key_equal\<close> accepts it,
  \<open>find\<close> returns \<open>c\<close>, the first matching slot of the sequence, and \<open>contains\<close> true.
  Otherwise the search goes on at \<open>next_slot\<close>.
\<close>

theorem find_contains_probe:
  assumes "\<forall>i < j. \<not> slot_empty t m (probe t (initial_slot t k hash) i) \<and>
                     \<not> slot_matches t m k key_equal (probe t (initial_slot t k hash) i)"
    and "j < n"
  shows "let c = probe t (initial_slot t k hash) j;
             found = fst (find_slot n t m k hash key_equal);
             present = fst (contains n t m k hash key_equal)
         in (slot_empty t m c \<longrightarrow> found = Some (end_slot t) \<and> present = Some False) \<and>
            (slot_matches t m k key_equal c \<longrightarrow> found = Some c \<and> present = Some True) \<and>
            (\<not> slot_empty t m c \<and> \<not> slot_matches t m k key_equal c \<longrightarrow>
               found = fst (find_loop (n - Suc j) t m k key_equal (next_slot t c) []) \<and>
               present = fst (contains_loop (n - Suc j) t m k key_equal (next_slot t c) []))"
proof -
  let ?s = "initial_slot t k hash"
  let ?c = "probe t ?s j"
  let ?n = "n - Suc j"
  from \<open>j < n\<close> have n: "n = j + Suc ?n"
    by simp
  have found: "fst (find_slot n t m k hash key_equal) =
               fst (find_loop (Suc ?n) t m k key_equal ?c [])"
    unfolding find_slot_def by (subst n) (rule find_loop_skip [OF assms(1)])
  have present: "fst (contains n t m k hash key_equal) =
                 fst (contains_loop (Suc ?n) t m k key_equal ?c [])"
    unfolding contains_def by (subst n) (rule contains_loop_skip [OF assms(1)])
  have "slot_matches t m k key_equal ?c \<Longrightarrow> \<not> slot_empty t m ?c"
    by (simp add: slot_matches_def)
  then show ?thesis
    unfolding Let_def found present find_loop_unfold contains_loop_unfold
    using find_loop_calls [of ?n t m k key_equal "next_slot t ?c" "[(fst (m ?c), k)]" "[]"]
      contains_loop_calls [of ?n t m k key_equal "next_slot t ?c" "[(fst (m ?c), k)]" "[]"]
    by auto
qed

text \<open>
  Witness for C4, on the table of scenario 1: the key 3 starts at slot 3, which holds the
  key 1, and is found in slot 4; the key 4 starts at slot 4, passes the slots 4 and 5 and
  meets the empty slot 6.
\<close>

theorem find_contains_probe_witness:
  "fst (find_slot 5 lookup_view multi_table 3 nat (=)) = Some 4 \<and>
   fst (contains 5 lookup_view multi_table 3 nat (=)) = Some True \<and>
   fst (find_slot 5 lookup_view multi_table 4 nat (=)) = Some (end_slot lookup_view) \<and>
   fst (contains 5 lookup_view multi_table 4 nat (=)) = Some False"
proof -
  let ?t = lookup_view and ?m = multi_table
  have path3: "probe ?t (initial_slot ?t 3 nat) 0 = 3" "probe ?t (initial_slot ?t 3 nat) 1 = 4"
    by code_simp+
  have path4: "probe ?t (initial_slot ?t 4 nat) 0 = 4" "probe ?t (initial_slot ?t 4 nat) 1 = 5"
    "probe ?t (initial_slot ?t 4 nat) 2 = 6"
    by code_simp+
  have slots3: "\<not> slot_empty ?t ?m 3" "\<not> slot_matches ?t ?m 3 (=) 3" "slot_matches ?t ?m 3 (=) 4"
    by code_simp+
  have slots4: "\<not> slot_empty ?t ?m 4" "\<not> slot_matches ?t ?m 4 (=) 4"
    "\<not> slot_empty ?t ?m 5" "\<not> slot_matches ?t ?m 4 (=) 5" "slot_empty ?t ?m 6"
    by code_simp+
  have lt: "(1::nat) < 5" "(2::nat) < 5"
    by simp_all
  have "\<forall>i < 1. \<not> slot_empty ?t ?m (probe ?t (initial_slot ?t 3 nat) i) \<and>
                 \<not> slot_matches ?t ?m 3 (=) (probe ?t (initial_slot ?t 3 nat) i)"
    using path3 slots3 by simp
  from find_contains_probe [OF this lt(1), unfolded Let_def path3] slots3
  have found: "fst (find_slot 5 ?t ?m 3 nat (=)) = Some 4"
    "fst (contains 5 ?t ?m 3 nat (=)) = Some True"
    by blast+
  have "i < 2 \<Longrightarrow> i = 0 \<or> i = 1" for i :: nat
    by auto
  then have "\<forall>i < 2. \<not> slot_empty ?t ?m (probe ?t (initial_slot ?t 4 nat) i) \<and>
                 \<not> slot_matches ?t ?m 4 (=) (probe ?t (initial_slot ?t 4 nat) i)"
    using path4 slots4 by metis
  from find_contains_probe [OF this lt(2), unfolded Let_def path4] slots4
  have absent: "fst (find_slot 5 ?t ?m 4 nat (=)) = Some (end_slot ?t)"
    "fst (contains 5 ?t ?m 4 nat (=)) = Some False"
    by blast+
  from found absent show ?thesis
    by blast
qed

section \<open>Group-cooperative find and contains, window by window\<close>

lemma slot_preds:
  "map (\<lambda>(e, empty). \<not> empty \<and> key_equal e k)
     (zip (map (\<lambda>c. fst (m c)) cs) (map (slot_empty t m) cs)) =
   map (slot_matches t m k key_equal) cs"
  by (induction cs) (simp_all add: slot_matches_def)

lemma slot_empties:
  "map (\<lambda>e. bitwise_compare e (empty_key_sentinel t)) (map (\<lambda>c. fst (m c)) cs) =
   map (slot_empty t m) cs"
  by (simp add: slot_empty_def)


lemma find_cg_loop_unfold:
  "find_cg_loop (Suc n) t m k key_equal cs calls =
     (let calls' = calls @ key_equal_calls (map (\<lambda>c. fst (m c)) cs) (map (slot_empty t m) cs) k
      in if ballot (map (slot_matches t m k key_equal) cs) \<noteq> 0
         then (Some (cs ! (ffs (ballot (map (slot_matches t m k key_equal) cs)) - 1)), calls')
         else if ballot (map (slot_empty t m) cs) \<noteq> 0 then (Some (end_slot t), calls')
         else find_cg_loop n t m k key_equal (map (next_slot_cg t (length cs)) cs) calls')"
  by (simp add: Let_def slot_preds slot_empties shfl_def del: map_map)

lemma contains_cg_loop_unfold:
  "contains_cg_loop (Suc n) t m k key_equal cs calls =
     (let calls' = calls @ key_equal_calls (map (\<lambda>c. fst (m c)) cs) (map (slot_empty t m) cs) k
      in if ballot (map (slot_matches t m k key_equal) cs) \<noteq> 0 then (Some True, calls')
         else if ballot (map (slot_empty t m) cs) \<noteq> 0 then (Some False, calls')
         else contains_cg_loop n t m k key_equal (map (next_slot_cg t (length cs)) cs) calls')"
  by (simp add: Let_def slot_preds slot_empties del: map_map)

lemma window_0 [simp]: "window t cs 0 = cs"
  by (simp add: window_def)

lemma window_Suc: "window t (map (next_slot_cg t (length cs)) cs) j = window t cs (Suc j)"
  by (simp add: window_def funpow_swap1)

lemma length_window [simp]: "length (window t cs j) = length cs"
  by (induction j) (simp_all add: window_def)

lemma find_cg_loop_calls:
  "fst (find_cg_loop n t m k key_equal cs calls) = fst (find_cg_loop n t m k key_equal cs calls')"
proof (induction n arbitrary: cs calls calls')
  case 0
  then show ?case by simp
next
  case (Suc n)
  show ?case
    unfolding find_cg_loop_unfold Let_def using Suc.IH by auto
qed

lemma contains_cg_loop_calls:
  "fst (contains_cg_loop n t m k key_equal cs calls) =
   fst (contains_cg_loop n t m k key_equal cs calls')"
proof (induction n arbitrary: cs calls calls')
  case 0
  then show ?case by simp
next
  case (Suc n)
  show ?case
    unfolding contains_cg_loop_unfold Let_def using Suc.IH by auto
qed

lemma find_cg_loop_skip:
  assumes "\<forall>i < j. \<forall>c \<in> set (window t cs i).
             \<not> slot_matches t m k key_equal c \<and> \<not> slot_empty t m c"
  shows "fst (find_cg_loop (j + n) t m k key_equal cs calls) =
         fst (find_cg_loop n t m k key_equal (window t cs j) calls)"
  using assms
proof (induction j arbitrary: cs calls)
  case 0
  then show ?case by simp
next
  case (Suc j)
  let ?cs = "map (next_slot_cg t (length cs)) cs"
  from Suc.prems have here:
    "\<forall>c \<in> set cs. \<not> slot_matches t m k key_equal c \<and> \<not> slot_empty t m c"
    by (auto dest: spec [of _ 0])
  have later: "\<forall>i < j. \<forall>c \<in> set (window t ?cs i).
                 \<not> slot_matches t m k key_equal c \<and> \<not> slot_empty t m c"
    using Suc.prems by (auto simp: window_Suc)
  have "fst (find_cg_loop (Suc j + n) t m k key_equal cs calls) =
        fst (find_cg_loop (j + n) t m k key_equal ?cs calls)"
    using here find_cg_loop_calls [of "j + n" t m k key_equal ?cs]
    by (simp add: find_cg_loop_unfold Let_def ballot_eq_0 del: find_cg_loop.simps)
  also have "\<dots> = fst (find_cg_loop n t m k key_equal (window t ?cs j) calls)"
    by (rule Suc.IH [OF later])
  finally show ?case
    by (simp add: window_Suc)
qed

lemma contains_cg_loop_skip:
  assumes "\<forall>i < j. \<forall>c \<in> set (window t cs i).
             \<not> slot_matches t m k key_equal c \<and> \<not> slot_empty t m c"
  shows "fst (contains_cg_loop (j + n) t m k key_equal cs calls) =
         fst (contains_cg_loop n t m k key_equal (window t cs j) calls)"
  using assms
proof (induction j arbitrary: cs calls)
  case 0
  then show ?case by simp
next
  case (Suc j)
  let ?cs = "map (next_slot_cg t (length cs)) cs"
  from Suc.prems have here:
    "\<forall>c \<in> set cs. \<not> slot_matches t m k key_equal c \<and> \<not> slot_empty t m c"
    by (auto dest: spec [of _ 0])
  have later: "\<forall>i < j. \<forall>c \<in> set (window t ?cs i).
                 \<not> slot_matches t m k key_equal c \<and> \<not> slot_empty t m c"
    using Suc.prems by (auto simp: window_Suc)
  have "fst (contains_cg_loop (Suc j + n) t m k key_equal cs calls) =
        fst (contains_cg_loop (j + n) t m k key_equal ?cs calls)"
    using here contains_cg_loop_calls [of "j + n" t m k key_equal ?cs]
    by (simp add: contains_cg_loop_unfold Let_def ballot_eq_0 del: contains_cg_loop.simps)
  also have "\<dots> = fst (contains_cg_loop n t m k key_equal (window t ?cs j) calls)"
    by (rule Suc.IH [OF later])
  finally show ?case
    by (simp add: window_Suc)
qed

lemma lowest_matching_lane:
  assumes "\<exists>c \<in> set w. slot_matches t m k key_equal c"
  defines "r \<equiv> ffs (ballot (map (slot_matches t m k key_equal) w)) - 1"
  shows "r < length w \<and> slot_matches t m k key_equal (w ! r) \<and>
         (\<forall>r' < r. \<not> slot_matches t m k key_equal (w ! r'))"
proof -
  from assms(1) have "ballot (map (slot_matches t m k key_equal) w) \<noteq> 0"
    by (auto simp: ballot_eq_0)
  from ffs_ballot [OF this] show ?thesis
    by (auto simp: r_def)
qed

text \<open>
  Claim C5: the group has found neither a match nor an empty slot in the windows before the
  \<open>j\<close>-th, and the bound \<open>n\<close> lets it examine that window \<open>w\<close>. If a lane of \<open>w\<close> holds a
  key other than the empty key that \<open>key_equal\<close> accepts, \<open>find\<close> returns the slot of the
  lowest such lane and \<open>contains\<close> returns true, also when another lane of \<open>w\<close> is empty.
  If no lane matches and some lane is empty, \<open>find\<close> returns \<open>end()\<close> and \<open>contains\<close> false.
  Otherwise the search goes on in the next window.
\<close>

theorem find_contains_cg_window:
  assumes "\<forall>i < j. \<forall>c \<in> set (window t cs i).
             \<not> slot_matches t m k key_equal c \<and> \<not> slot_empty t m c"
    and "j < n"
  shows "let w = window t cs j;
             found = fst (find_cg_loop n t m k key_equal cs calls);
             present = fst (contains_cg_loop n t m k key_equal cs calls)
         in ((\<exists>c \<in> set w. slot_matches t m k key_equal c) \<longrightarrow>
               (\<exists>r < length w. found = Some (w ! r) \<and> slot_matches t m k key_equal (w ! r) \<and>
                  (\<forall>r' < r. \<not> slot_matches t m k key_equal (w ! r'))) \<and>
               present = Some True) \<and>
            ((\<forall>c \<in> set w. \<not> slot_matches t m k key_equal c) \<and>
             (\<exists>c \<in> set w. slot_empty t m c) \<longrightarrow>
               found = Some (end_slot t) \<and> present = Some False) \<and>
            ((\<forall>c \<in> set w. \<not> slot_matches t m k key_equal c \<and> \<not> slot_empty t m c) \<longrightarrow>
               found = fst (find_cg_loop (n - Suc j) t m k key_equal (window t cs (Suc j)) calls) \<and>
               present =
                 fst (contains_cg_loop (n - Suc j) t m k key_equal (window t cs (Suc j)) calls))"
proof -
  let ?w = "window t cs j"
  let ?n = "n - Suc j"
  from \<open>j < n\<close> have n: "n = j + Suc ?n"
    by simp
  have found: "fst (find_cg_loop n t m k key_equal cs calls) =
               fst (find_cg_loop (Suc ?n) t m k key_equal ?w calls)"
    by (subst n) (rule find_cg_loop_skip [OF assms(1)])
  have present: "fst (contains_cg_loop n t m k key_equal cs calls) =
                 fst (contains_cg_loop (Suc ?n) t m k key_equal ?w calls)"
    by (subst n) (rule contains_cg_loop_skip [OF assms(1)])
  have match: "\<exists>r < length ?w.
         fst (find_cg_loop (Suc ?n) t m k key_equal ?w calls) = Some (?w ! r) \<and>
         slot_matches t m k key_equal (?w ! r) \<and>
         (\<forall>r' < r. \<not> slot_matches t m k key_equal (?w ! r'))"
       "fst (contains_cg_loop (Suc ?n) t m k key_equal ?w calls) = Some True"
    if "\<exists>c \<in> set ?w. slot_matches t m k key_equal c"
  proof -
    from that have nz: "ballot (map (slot_matches t m k key_equal) ?w) \<noteq> 0"
      by (auto simp: ballot_eq_0)
    from lowest_matching_lane [OF that] nz
    show "\<exists>r < length ?w.
         fst (find_cg_loop (Suc ?n) t m k key_equal ?w calls) = Some (?w ! r) \<and>
         slot_matches t m k key_equal (?w ! r) \<and>
         (\<forall>r' < r. \<not> slot_matches t m k key_equal (?w ! r'))"
      unfolding find_cg_loop_unfold Let_def by (simp del: length_window) blast
    from nz show "fst (contains_cg_loop (Suc ?n) t m k key_equal ?w calls) = Some True"
      unfolding contains_cg_loop_unfold Let_def by simp
  qed
  have empty: "fst (find_cg_loop (Suc ?n) t m k key_equal ?w calls) = Some (end_slot t)"
       "fst (contains_cg_loop (Suc ?n) t m k key_equal ?w calls) = Some False"
    if "\<forall>c \<in> set ?w. \<not> slot_matches t m k key_equal c" and "\<exists>c \<in> set ?w. slot_empty t m c"
    using that unfolding find_cg_loop_unfold contains_cg_loop_unfold Let_def
    by (auto simp: ballot_eq_0)
  have advance:
       "fst (find_cg_loop (Suc ?n) t m k key_equal ?w calls) =
        fst (find_cg_loop ?n t m k key_equal (window t cs (Suc j)) calls)"
       "fst (contains_cg_loop (Suc ?n) t m k key_equal ?w calls) =
        fst (contains_cg_loop ?n t m k key_equal (window t cs (Suc j)) calls)"
    if "\<forall>c \<in> set ?w. \<not> slot_matches t m k key_equal c \<and> \<not> slot_empty t m c"
  proof -
    have w: "map (next_slot_cg t (length ?w)) ?w = window t cs (Suc j)"
      by (simp only: length_window) (simp add: window_def)
    from that find_cg_loop_calls [of ?n t m k key_equal "window t cs (Suc j)"]
    show "fst (find_cg_loop (Suc ?n) t m k key_equal ?w calls) =
        fst (find_cg_loop ?n t m k key_equal (window t cs (Suc j)) calls)"
      unfolding find_cg_loop_unfold Let_def w by (auto simp: ballot_eq_0)
    from that contains_cg_loop_calls [of ?n t m k key_equal "window t cs (Suc j)"]
    show "fst (contains_cg_loop (Suc ?n) t m k key_equal ?w calls) =
        fst (contains_cg_loop ?n t m k key_equal (window t cs (Suc j)) calls)"
      unfolding contains_cg_loop_unfold Let_def w by (auto simp: ballot_eq_0)
  qed
  show ?thesis
    unfolding Let_def found present using match empty advance by blast
qed

text \<open>
  Witness for C5, on the table of scenario 2 with two lanes: the keys 16 and 24 both start at
  window 0, which is full of other keys; in window 1 the lane 0 holds the key 16 and the
  lane 1 is empty.
\<close>

theorem find_contains_cg_window_witness:
  "fst (find_cg 3 lookup_view lookup_table 2 16 nat (=)) = Some 2 \<and>
   fst (contains_cg 3 lookup_view lookup_table 2 16 nat (=)) = Some True \<and>
   fst (find_cg 3 lookup_view lookup_table 2 24 nat (=)) = Some (end_slot lookup_view) \<and>
   fst (contains_cg 3 lookup_view lookup_table 2 24 nat (=)) = Some False"
proof -
  let ?t = lookup_view and ?m = lookup_table
  have lanes: "map (\<lambda>rank. initial_slot_cg ?t 2 rank 16 nat) [0..<2] = [0, 1]"
    "map (\<lambda>rank. initial_slot_cg ?t 2 rank 24 nat) [0..<2] = [0, 1]"
    by code_simp+
  have w: "window ?t [0, 1] 1 = [2, 3]"
    by code_simp
  have lt: "(1::nat) < 3"
    by simp
  have first: "\<forall>i < 1. \<forall>c \<in> set (window ?t [0, 1] i).
                 \<not> slot_matches ?t ?m k (=) c \<and> \<not> slot_empty ?t ?m c"
    if "k = 16 \<or> k = 24" for k
    using that by (auto simp: slot_matches_def slot_empty_def bitwise_compare_def lookup_view_def
        lookup_table_def memory_of_def)
  have second: "slot_matches ?t ?m 16 (=) 2" "\<not> slot_matches ?t ?m 24 (=) 2"
    "\<not> slot_matches ?t ?m 24 (=) 3" "slot_empty ?t ?m 3"
    by code_simp+
  have "\<exists>c \<in> set [2, 3]. slot_matches ?t ?m 16 (=) c"
    using second(1) by simp
  with find_contains_cg_window [OF first lt, of 16 "[]", unfolded Let_def w]
  obtain r where r: "fst (find_cg_loop 3 ?t ?m 16 (=) [0, 1] []) = Some ([2, 3] ! r)"
      "\<forall>r' < r. \<not> slot_matches ?t ?m 16 (=) ([2, 3] ! r')"
    and present: "fst (contains_cg_loop 3 ?t ?m 16 (=) [0, 1] []) = Some True"
    by blast
  from r(2) second(1) have "r = 0"
    by (cases r) auto
  with r(1) have found: "fst (find_cg_loop 3 ?t ?m 16 (=) [0, 1] []) = Some 2"
    by simp
  have "(\<forall>c \<in> set [2, 3]. \<not> slot_matches ?t ?m 24 (=) c) \<and> (\<exists>c \<in> set [2, 3]. slot_empty ?t ?m c)"
    using second by simp
  with find_contains_cg_window [OF first lt, of 24 "[]", unfolded Let_def w]
  have absent: "fst (find_cg_loop 3 ?t ?m 24 (=) [0, 1] []) = Some (end_slot ?t)"
    "fst (contains_cg_loop 3 ?t ?m 24 (=) [0, 1] []) = Some False"
    by blast+
  from found present absent show ?thesis
    by (simp add: find_cg_def contains_cg_def lanes)
qed

section \<open>The calls of key_equal\<close>

lemma key_equal_calls_set:
  "set (key_equal_calls es (map P es) k) = {(e, k) |e. e \<in> set es \<and> \<not> P e}"
  by (induction es) (auto simp: key_equal_calls_def)

lemma key_equal_calls_window:
  "set (key_equal_calls (map (\<lambda>c. fst (m c)) cs) (map (slot_empty t m) cs) k) \<subseteq>
   {(a, k) |a. a \<noteq> empty_key_sentinel t}"
  by (induction cs) (auto simp: key_equal_calls_def slot_empty_def bitwise_compare_def)

lemma find_loop_calls_sentinel:
  "set (snd (find_loop n t m k key_equal s calls)) \<subseteq>
   set calls \<union> {(a, k) |a. a \<noteq> empty_key_sentinel t}"
proof (induction n arbitrary: s calls)
  case 0
  then show ?case by simp
next
  case (Suc n)
  from Suc.IH [of "next_slot t s" "calls @ [(fst (m s), k)]"] show ?case
    by (auto simp: find_loop_unfold slot_empty_def bitwise_compare_def
        simp del: find_loop.simps)
qed

lemma contains_loop_calls_sentinel:
  "set (snd (contains_loop n t m k key_equal s calls)) \<subseteq>
   set calls \<union> {(a, k) |a. a \<noteq> empty_key_sentinel t}"
proof (induction n arbitrary: s calls)
  case 0
  then show ?case by simp
next
  case (Suc n)
  from Suc.IH [of "next_slot t s" "calls @ [(fst (m s), k)]"] show ?case
    by (auto simp: contains_loop_unfold slot_empty_def bitwise_compare_def
        simp del: contains_loop.simps)
qed

lemma find_cg_loop_calls_sentinel:
  "set (snd (find_cg_loop n t m k key_equal cs calls)) \<subseteq>
   set calls \<union> {(a, k) |a. a \<noteq> empty_key_sentinel t}"
proof (induction n arbitrary: cs calls)
  case 0
  then show ?case by simp
next
  case (Suc n)
  let ?calls = "calls @ key_equal_calls (map (\<lambda>c. fst (m c)) cs) (map (slot_empty t m) cs) k"
  from Suc.IH [of "map (next_slot_cg t (length cs)) cs" ?calls]
    key_equal_calls_window [of m cs t k]
  show ?case
    unfolding find_cg_loop_unfold Let_def by (auto split: if_splits)
qed

lemma contains_cg_loop_calls_sentinel:
  "set (snd (contains_cg_loop n t m k key_equal cs calls)) \<subseteq>
   set calls \<union> {(a, k) |a. a \<noteq> empty_key_sentinel t}"
proof (induction n arbitrary: cs calls)
  case 0
  then show ?case by simp
next
  case (Suc n)
  let ?calls = "calls @ key_equal_calls (map (\<lambda>c. fst (m c)) cs) (map (slot_empty t m) cs) k"
  from Suc.IH [of "map (next_slot_cg t (length cs)) cs" ?calls]
    key_equal_calls_window [of m cs t k]
  show ?case
    unfolding contains_cg_loop_unfold Let_def by (auto split: if_splits)
qed

text \<open>
  \<open>find\<close> and \<open>contains\<close>, by a single worker and by a group, in finished and in unfinished
  runs: the first argument of every call of \<open>key_equal\<close> is a slot key whose bits are not the
  sentinel's, and the second argument is the query key.
\<close>

lemma find_contains_calls:
  "set (lookup_calls n t m W k hash key_equal) \<subseteq> {(a, k) |a. a \<noteq> empty_key_sentinel t}"
proof -
  let ?ok = "{(a, k) |a. a \<noteq> empty_key_sentinel t}"
  have "set (snd (find_slot n t m k hash key_equal)) \<subseteq> ?ok"
    using find_loop_calls_sentinel [of n t m k key_equal _ "[]"] by (simp add: find_slot_def)
  moreover have "set (snd (contains n t m k hash key_equal)) \<subseteq> ?ok"
    using contains_loop_calls_sentinel [of n t m k key_equal _ "[]"] by (simp add: contains_def)
  moreover have "set (snd (find_cg n t m W k hash key_equal)) \<subseteq> ?ok"
    using find_cg_loop_calls_sentinel [of n t m k key_equal _ "[]"] by (simp add: find_cg_def)
  moreover have "set (snd (contains_cg n t m W k hash key_equal)) \<subseteq> ?ok"
    using contains_cg_loop_calls_sentinel [of n t m k key_equal _ "[]"]
    by (simp add: contains_cg_def)
  ultimately show ?thesis
    by (simp add: lookup_calls_def)
qed

text \<open>
  The group's \<open>find_all\<close> and \<open>count\<close>: the first argument of every call of \<open>key_equal\<close> is a
  slot key that the \<open>==\<close> of the key type tells from the sentinel. When the sentinel equals
  itself under that operator, no first argument is the sentinel. \<open>count\<close> makes the calls of
  its \<open>find_all\<close> and no other.
\<close>

lemma find_all_cg_loop_calls:
  "set (snd (find_all_cg_loop n t m op_eq k key_equal cs calls)) \<subseteq>
   set calls \<union> {(a, k) |a. \<not> op_eq a (empty_key_sentinel t)}"
proof (induction n arbitrary: cs calls)
  case 0
  then show ?case by simp
next
  case (Suc n)
  let ?calls = "calls @ key_equal_calls (map (\<lambda>c. fst (m c)) cs)
                  (map (\<lambda>e. op_eq e (empty_key_sentinel t)) (map (\<lambda>c. fst (m c)) cs)) k"
  have "set ?calls \<subseteq> set calls \<union> {(a, k) |a. \<not> op_eq a (empty_key_sentinel t)}"
    by (auto simp: key_equal_calls_set simp del: map_map)
  with Suc.IH [of "map (next_slot_cg t (length cs)) cs" ?calls]
  show ?case
    by (auto simp: Let_def simp del: map_map split: if_splits)
qed

lemma find_all_cg_calls:
  assumes "op_eq (empty_key_sentinel t) (empty_key_sentinel t)"
  shows "set (snd (find_all_cg n t m op_eq W k hash key_equal)) \<subseteq>
         {(a, k) |a. a \<noteq> empty_key_sentinel t}"
  using find_all_cg_loop_calls [of n t m op_eq k key_equal _ "[]"] assms
  by (auto simp: find_all_cg_def)

lemma count_cg_calls:
  "snd (count_cg n t m op_eq W k hash key_equal incr) =
   snd (find_all_cg n t m op_eq W k hash key_equal)"
  by (simp add: count_cg_def split: prod.splits option.splits)

lemma count_sw_calls: "snd (count_sw n t find_all incr) = snd find_all"
  by (simp add: count_sw_def split: prod.splits option.splits)

text \<open>
  Claim C6 on an empty table with \<open>float\<close> keys whose empty key is the quiet NaN, for the key
  \<open>1.0f\<close> and \<open>key_equal\<close> the \<open>==\<close> of \<open>float\<close>, in one iteration of each loop. \<open>find\<close> and
  \<open>contains\<close> compare the bits of the slot key with the sentinel's and call \<open>key_equal\<close> on no
  slot. The group's \<open>find_all\<close> tests \<open>existing_key == sentinel\<close>, which is false of a NaN,
  so both lanes call \<open>key_equal\<close> with the sentinel as the first argument; and so does the
  group's \<open>count\<close>, through its \<open>find_all\<close>.
\<close>

theorem find_all_calls_key_equal_on_sentinel:
  "empty_key_sentinel nan_view = float_quiet_nan \<and>
   map (\<lambda>i. fst (nan_empty i)) [0, 1, 2, 3] =
     [float_quiet_nan, float_quiet_nan, float_quiet_nan, float_quiet_nan] \<and>
   \<not> float_equal float_quiet_nan float_quiet_nan \<and>
   snd (find_slot 1 nan_view nan_empty float_one float_hash float_equal) = [] \<and>
   snd (contains 1 nan_view nan_empty float_one float_hash float_equal) = [] \<and>
   snd (find_cg 1 nan_view nan_empty 2 float_one float_hash float_equal) = [] \<and>
   snd (contains_cg 1 nan_view nan_empty 2 float_one float_hash float_equal) = [] \<and>
   snd (find_all_cg 1 nan_view nan_empty float_equal 2 float_one float_hash float_equal) =
     [(float_quiet_nan, float_one), (float_quiet_nan, float_one)] \<and>
   snd (count_cg 1 nan_view nan_empty float_equal 2 float_one float_hash float_equal id) =
     [(float_quiet_nan, float_one), (float_quiet_nan, float_one)]"
  by code_simp

section \<open>Count and the enumeration\<close>

lemma count_loop_matches:
  "count_loop n t incr found count =
   map_option (\<lambda>xs. count + length xs) (matches n t incr found)"
proof (induction n arbitrary: found count)
  case 0
  then show ?case by simp
next
  case (Suc n)
  show ?case
    by (simp add: Suc.IH option.map_comp comp_def)
qed

text \<open>
  Claim C7: \<open>count\<close> returns the length of the sequence of matches that iterating the cursor
  of \<open>find_all\<close> until \<open>end()\<close> produces; it returns exactly when that iteration ends. This
  holds for the group's \<open>count\<close> with the group's \<open>find_all\<close>, whatever the \<open>==\<close> of the key
  type, and for the single-worker \<open>count\<close> with whatever its \<open>find_all\<close> returns, and for
  every \<open>operator++\<close> of the cursor.
\<close>

theorem count_is_length_of_matches:
  "fst (count_cg n t m op_eq W k hash key_equal incr) =
     (case fst (find_all_cg n t m op_eq W k hash key_equal) of
        None \<Rightarrow> None
      | Some found \<Rightarrow> map_option length (matches n t incr found)) \<and>
   fst (count_sw n t find_all incr) =
     (case fst find_all of
        None \<Rightarrow> None
      | Some found \<Rightarrow> map_option length (matches n t incr found))"
  by (simp add: count_cg_def count_sw_def count_loop_matches split: prod.splits option.splits)

section \<open>The test for the empty key in find_all\<close>

text \<open>
  For a key type whose \<open>==\<close> is the equality of bit patterns, as the integral types, the
  group's \<open>find_all\<close> returns the cursor on the slot that the group's \<open>find\<close> returns, after
  the same calls.
\<close>

lemma find_all_cg_loop_find:
  "find_all_cg_loop n t m (=) k key_equal cs calls =
     (map_option (\<lambda>s. \<lparr>slot_index = s, key = k\<rparr>) (fst (find_cg_loop n t m k key_equal cs calls)),
      snd (find_cg_loop n t m k key_equal cs calls))"
proof (induction n arbitrary: cs calls)
  case 0
  then show ?case by simp
next
  case (Suc n)
  show ?case
    by (simp add: Suc.IH Let_def bitwise_compare_def del: map_map)
qed

text \<open>
  When the \<open>==\<close> of the key type holds of nothing and the sentinel, as for a NaN, \<open>find_all\<close>
  sees no empty slot: it has no result after any number of windows that hold no match.
\<close>

lemma find_all_cg_loop_no_end:
  assumes "\<forall>a. \<not> op_eq a (empty_key_sentinel t)" and "\<forall>c. \<not> key_equal (fst (m c)) k"
  shows "fst (find_all_cg_loop n t m op_eq k key_equal cs calls) = None"
proof (induction n arbitrary: cs calls)
  case 0
  then show ?case by simp
next
  case (Suc n)
  from assms have "ballot (map (\<lambda>(e, empty). \<not> empty \<and> key_equal e k)
      (zip (map (\<lambda>c. fst (m c)) cs)
         (map (\<lambda>e. op_eq e (empty_key_sentinel t)) (map (\<lambda>c. fst (m c)) cs)))) = 0"
    and "ballot (map (\<lambda>e. op_eq e (empty_key_sentinel t)) (map (\<lambda>c. fst (m c)) cs)) = 0"
    by (auto simp: ballot_eq_0 in_set_zip)
  then show ?case
    by (simp add: Let_def Suc.IH del: map_map)
qed

lemma float_nan_equals_nothing: "\<not> float_equal a float_quiet_nan"
  by (simp add: float_equal_def float_is_nan_def float_quiet_nan_def)

lemma nan_empty_keys: "\<not> float_equal (fst (nan_empty c)) float_one"
  by (simp add: nan_empty_def memory_of_def nth_Cons' float_equal_def float_is_nan_def
      float_is_zero_def float_quiet_nan_def float_one_def)

lemma find_all_cg_nan_never_returns:
  "fst (find_all_cg n nan_view nan_empty float_equal W float_one hash float_equal) = None"
  unfolding find_all_cg_def
  by (rule find_all_cg_loop_no_end)
     (simp_all add: nan_view_def float_nan_equals_nothing nan_empty_keys)

text \<open>
  Claim C8 on tables with \<open>float\<close> keys, with \<open>key_equal\<close> the \<open>==\<close> of \<open>float\<close>. On the empty
  table whose empty key is the quiet NaN, \<open>find\<close> and \<open>contains\<close> see the empty slot at once
  and answer not-found; the group's \<open>find_all\<close>, which tests \<open>existing_key == sentinel\<close>, sees
  no empty slot and has not returned after 100 windows (nor after any number, by
  \<open>find_all_cg_nan_never_returns\<close>). On the table whose empty key is
  \<open>+0.0f\<close> and whose slot 0 holds the key \<open>-0.0f\<close>, \<open>find\<close> and \<open>contains\<close> of \<open>-0.0f\<close> find
  the key in slot 0; \<open>find_all\<close> takes that slot for an empty one and returns \<open>end()\<close>.
\<close>

theorem find_all_empty_test_is_not_bitwise:
  "empty_key_sentinel nan_view = float_quiet_nan \<and>
   map (\<lambda>i. fst (nan_empty i)) [0, 1, 2, 3] =
     [float_quiet_nan, float_quiet_nan, float_quiet_nan, float_quiet_nan] \<and>
   fst (find_slot 1 nan_view nan_empty float_one float_hash float_equal) = Some (end_slot nan_view) \<and>
   fst (contains 1 nan_view nan_empty float_one float_hash float_equal) = Some False \<and>
   fst (find_cg 1 nan_view nan_empty 2 float_one float_hash float_equal) = Some (end_slot nan_view) \<and>
   fst (contains_cg 1 nan_view nan_empty 2 float_one float_hash float_equal) = Some False \<and>
   fst (find_all_cg 100 nan_view nan_empty float_equal 2 float_one float_hash float_equal) = None \<and>
   empty_key_sentinel zero_view = float_zero \<and>
   map (\<lambda>i. fst (zero_table i)) [0, 1, 2, 3] =
     [float_negative_zero, float_zero, float_zero, float_zero] \<and>
   float_negative_zero \<noteq> float_zero \<and>
   fst (find_slot 1 zero_view zero_table float_negative_zero float_hash float_equal) = Some 0 \<and>
   fst (contains 1 zero_view zero_table float_negative_zero float_hash float_equal) = Some True \<and>
   fst (find_cg 1 zero_view zero_table 2 float_negative_zero float_hash float_equal) = Some 0 \<and>
   fst (contains_cg 1 zero_view zero_table 2 float_negative_zero float_hash float_equal) = Some True \<and>
   fst (find_all_cg 1 zero_view zero_table float_equal 2 float_negative_zero float_hash float_equal) =
     Some \<lparr>slot_index = end_slot zero_view, key = float_negative_zero\<rparr>"
  by code_simp

section \<open>What an insert writes\<close>























section \<open>The status of an insert\<close>

lemma status_step:
  assumes "set (status g) \<subseteq> {CONTINUE, SUCCESS}"
  shows "set (status (snd (insert_cg_step t p m g))) \<subseteq> {CONTINUE, SUCCESS}"
proof -
  have "set ((status g)[src_lane g := SUCCESS]) \<subseteq> {CONTINUE, SUCCESS}"
    using assms set_update_subset_insert [of "status g" "src_lane g" SUCCESS] by auto
  with assms show ?thesis
    by (cases "cg_pc g")
       (auto simp: insert_cg_step_def Let_def compare_exchange_key_def compare_exchange_value_def
         split: if_splits)
qed

lemma status_exec:
  assumes "set (status g) \<subseteq> {CONTINUE, SUCCESS}"
  shows "set (status (snd (insert_cg_exec es t p m g))) \<subseteq> {CONTINUE, SUCCESS}"
  using assms
proof (induction es arbitrary: m g)
  case Nil
  then show ?case by simp
next
  case (Cons e es)
  from status_step [OF Cons.prems, of t p "e m"]
  have "set (status (snd (insert_cg_step t p (e m) g))) \<subseteq> {CONTINUE, SUCCESS}" .
  from Cons.IH [OF this, of "fst (insert_cg_step t p (e m) g)"]
  show ?case by (simp add: case_prod_unfold)
qed

text \<open>
  Claim C10: in every execution of the cooperative insert, whatever the other workers do, the
  status of every lane is \<open>CONTINUE\<close> or \<open>SUCCESS\<close> and never \<open>DUPLICATE\<close>. The single-worker
  insert has no status.
\<close>

theorem insert_status_never_duplicate:
  "set (status (snd (insert_cg_exec es t p m (insert_cg_init t W p hash key_equal)))) \<subseteq>
     {CONTINUE, SUCCESS} \<and>
   DUPLICATE \<notin> set (status (snd (insert_cg_exec es t p m (insert_cg_init t W p hash key_equal))))"
proof -
  have "set (status (insert_cg_init t W p hash key_equal)) \<subseteq> {CONTINUE, SUCCESS}"
    by (auto simp: insert_cg_init_def)
  from status_exec [OF this, of es t p m] show ?thesis
    by auto
qed

section \<open>The emptiness test of the cooperative insert\<close>

text \<open>
  Claim C1 on a table whose sentinels differ (\<open>-1\<close> for the key, \<open>-2\<close> for the value) and
  which is empty: the group that inserts \<open>(2, 20)\<close> starts on the lanes 0 and 1, whose slots
  hold the empty key. The test compares their keys with the value sentinel, so the ballot is
  0: the group leaves the window without a compare-exchange, and after 100 steps it is still
  loading windows of a table that is still empty.
\<close>

theorem insert_cg_skips_empty_window:
  "lane_slot (insert_cg_init distinct_view 2 (2, 20) nat (=)) = [0, 1] \<and>
   map distinct_empty [0, 1, 2, 3] = [(- 1, - 2), (- 1, - 2), (- 1, - 2), (- 1, - 2)] \<and>
   window_contains_empty distinct_view distinct_empty [0, 1] = 0 \<and>
   lane_slot (snd (insert_cg_alone 1 distinct_view (2, 20) distinct_empty
                     (insert_cg_init distinct_view 2 (2, 20) nat (=)))) = [2, 3] \<and>
   cg_pc (snd (insert_cg_alone 100 distinct_view (2, 20) distinct_empty
                 (insert_cg_init distinct_view 2 (2, 20) nat (=)))) = LoadWindow \<and>
   map (fst (insert_cg_alone 100 distinct_view (2, 20) distinct_empty
               (insert_cg_init distinct_view 2 (2, 20) nat (=)))) [0, 1, 2, 3] =
     [(- 1, - 2), (- 1, - 2), (- 1, - 2), (- 1, - 2)]"
  by code_simp

end
